theory Spec2Isabelle
  imports Main
begin

section \<open>The CSS selector builder of \<^verbatim>\<open>src/05-objects-tasks.js\<close>\<close>

subsection \<open>Data\<close>

text \<open>
  A thrown JavaScript \<^verbatim>\<open>new Error(message)\<close> is a value carrying its message.
\<close>

datatype error = Error (message: string)

text \<open>
  The mutable fields of a \<^verbatim>\<open>SelectorBuilder\<close> instance. The field \<^verbatim>\<open>current\<close> is
  not assigned by the constructor, so it reads as \<^verbatim>\<open>undefined\<close> (\<open>None\<close>) until the first
  successful \<^verbatim>\<open>add\<close>. The object \<^verbatim>\<open>occurences\<close> is a map from property names to
  booleans. The fields \<^verbatim>\<open>order\<close>, \<^verbatim>\<open>error1\<close> and \<^verbatim>\<open>error2\<close> are assigned by the
  constructor only and never written again: they are the constants below.
\<close>

record SelectorBuilder =
  selector :: string
  combinator :: string
  current :: "string option"
  occurences :: "string \<rightharpoonup> bool"

definition SelectorBuilder_order :: "string list" where
  "SelectorBuilder_order =
     [''element'', ''id'', ''class'', ''attr'', ''pseudo-class'', ''pseudo-element'']"

definition SelectorBuilder_error1 :: string where
  "SelectorBuilder_error1 =
     ''Selector parts should be arranged in the following order: element, id, class, attribute, pseudo-class, pseudo-element''"

definition SelectorBuilder_error2 :: string where
  "SelectorBuilder_error2 =
     ''Element, id and pseudo-element should not occur more then one time inside the selector''"

definition SelectorBuilder_constructor :: SelectorBuilder where
  "SelectorBuilder_constructor =
     \<lparr> selector = '''',
       combinator = '''',
       current = None,
       occurences = [''element'' \<mapsto> False, ''id'' \<mapsto> False, ''class'' \<mapsto> False,
                     ''attr'' \<mapsto> False, ''pseudo-class'' \<mapsto> False,
                     ''pseudo-element'' \<mapsto> False] \<rparr>"

subsection \<open>Control flow\<close>

text \<open>
  A method call on a builder either returns the receiver (every mutating method ends in
  \<^verbatim>\<open>return this\<close>) or throws. Both outcomes carry the state in which the call leaves the
  receiver, so that what a throwing call has already written stays visible.
\<close>

datatype result = Returns SelectorBuilder | Throws error SelectorBuilder

text \<open>
  \<open>call_on r m\<close> is the chained call \<^verbatim>\<open>r.m()\<close>: when the expression before the dot has
  thrown, the method is never entered.
\<close>

fun call_on :: "result \<Rightarrow> (SelectorBuilder \<Rightarrow> result) \<Rightarrow> result" where
  "call_on (Returns this) m = m this"
| "call_on (Throws e this) m = Throws e this"

text \<open>
  A statement of a method body transforms the receiver or throws; a body is the
  sequence of its statements, left at the first throw.
\<close>

fun block :: "(SelectorBuilder \<Rightarrow> result) list \<Rightarrow> SelectorBuilder \<Rightarrow> result" where
  "block [] this = Returns this"
| "block (s # ss) this = call_on (s this) (block ss)"

text \<open>
  \<^verbatim>\<open>Array.prototype.indexOf\<close>: the index of the first element strictly equal to the
  searched value, or \<open>-1\<close>. The searched value may be \<^verbatim>\<open>undefined\<close>, which no element
  of an array of strings equals; array elements are therefore wrapped in \<open>Some\<close>.
\<close>

fun indexOf_from :: "'a list \<Rightarrow> 'a \<Rightarrow> int \<Rightarrow> int" where
  "indexOf_from [] x i = - 1"
| "indexOf_from (y # ys) x i = (if y = x then i else indexOf_from ys x (i + 1))"

definition indexOf :: "'a list \<Rightarrow> 'a \<Rightarrow> int" where
  "indexOf xs x = indexOf_from xs x 0"

subsection \<open>The methods of \<^verbatim>\<open>SelectorBuilder\<close>\<close>

definition displayOrderError :: "SelectorBuilder \<Rightarrow> result" where
  "displayOrderError this = Throws (Error SelectorBuilder_error1) this"

definition displayUniqueError :: "SelectorBuilder \<Rightarrow> result" where
  "displayUniqueError this = Throws (Error SelectorBuilder_error2) this"

text \<open>
  \<^verbatim>\<open>add(type, value)\<close>, statement by statement. The test \<^verbatim>\<open>if (this.occurences[type])\<close>
  is taken exactly when the property holds \<^verbatim>\<open>true\<close> (a missing property reads as
  \<^verbatim>\<open>undefined\<close>, which is falsy). The six append methods pass only the six type
  strings of \<^verbatim>\<open>order\<close>, all of them own properties of \<^verbatim>\<open>occurences\<close>.
\<close>

definition SelectorBuilder_add :: "string \<Rightarrow> string \<Rightarrow> SelectorBuilder \<Rightarrow> result" where
  "SelectorBuilder_add type value = block
     [\<lambda>this. if occurences this type = Some True
             then (if type = ''element'' \<or> type = ''id'' \<or> type = ''pseudo-element''
                   then displayUniqueError this
                   else Returns this)
             else Returns this,
      \<lambda>this. if indexOf (map Some SelectorBuilder_order) (Some type)
                  < indexOf (map Some SelectorBuilder_order) (current this)
             then displayOrderError this
             else Returns this,
      \<lambda>this. Returns (this\<lparr>current := Some type\<rparr>),
      \<lambda>this. Returns (this\<lparr>occurences := (occurences this)(type \<mapsto> True)\<rparr>),
      \<lambda>this. if type = ''id'' then Returns (this\<lparr>selector := selector this @ ''#'' @ value\<rparr>)
             else if type = ''class'' then Returns (this\<lparr>selector := selector this @ ''.'' @ value\<rparr>)
             else if type = ''attr''
               then Returns (this\<lparr>selector := selector this @ ''['' @ value @ '']''\<rparr>)
             else if type = ''pseudo-class''
               then Returns (this\<lparr>selector := selector this @ '':'' @ value\<rparr>)
             else if type = ''pseudo-element''
               then Returns (this\<lparr>selector := selector this @ ''::'' @ value\<rparr>)
             else Returns (this\<lparr>selector := selector this @ value\<rparr>)]"

definition SelectorBuilder_element :: "string \<Rightarrow> SelectorBuilder \<Rightarrow> result" where
  "SelectorBuilder_element value this = SelectorBuilder_add ''element'' value this"

definition SelectorBuilder_id :: "string \<Rightarrow> SelectorBuilder \<Rightarrow> result" where
  "SelectorBuilder_id value this = SelectorBuilder_add ''id'' value this"

definition SelectorBuilder_class :: "string \<Rightarrow> SelectorBuilder \<Rightarrow> result" where
  "SelectorBuilder_class value this = SelectorBuilder_add ''class'' value this"

definition SelectorBuilder_attr :: "string \<Rightarrow> SelectorBuilder \<Rightarrow> result" where
  "SelectorBuilder_attr value this = SelectorBuilder_add ''attr'' value this"

definition SelectorBuilder_pseudoClass :: "string \<Rightarrow> SelectorBuilder \<Rightarrow> result" where
  "SelectorBuilder_pseudoClass value this = SelectorBuilder_add ''pseudo-class'' value this"

definition SelectorBuilder_pseudoElement :: "string \<Rightarrow> SelectorBuilder \<Rightarrow> result" where
  "SelectorBuilder_pseudoElement value this = SelectorBuilder_add ''pseudo-element'' value this"

definition stringify :: "SelectorBuilder \<Rightarrow> string" where
  "stringify this = selector this"

text \<open>
  \<^verbatim>\<open>combine(selector1, combinator, selector2)\<close>. Both arguments are read (through
  \<^verbatim>\<open>stringify\<close>) before \<^verbatim>\<open>this.selector\<close> is written, so they are the argument
  builders as they are when the call is made, also when one of them is the receiver.
\<close>

definition SelectorBuilder_combine ::
  "SelectorBuilder \<Rightarrow> string \<Rightarrow> SelectorBuilder \<Rightarrow> SelectorBuilder \<Rightarrow> result" where
  "SelectorBuilder_combine selector1 combinator' selector2 = block
     [\<lambda>this. Returns (this\<lparr>combinator := combinator'\<rparr>),
      \<lambda>this. Returns (this\<lparr>selector :=
                 stringify selector1 @ '' '' @ combinator' @ '' '' @ stringify selector2\<rparr>)]"

subsection \<open>The facade \<^verbatim>\<open>cssSelectorBuilder\<close>\<close>

definition cssSelectorBuilder_element :: "string \<Rightarrow> result" where
  "cssSelectorBuilder_element value = SelectorBuilder_element value SelectorBuilder_constructor"

definition cssSelectorBuilder_id :: "string \<Rightarrow> result" where
  "cssSelectorBuilder_id value = SelectorBuilder_id value SelectorBuilder_constructor"

definition cssSelectorBuilder_class :: "string \<Rightarrow> result" where
  "cssSelectorBuilder_class value = SelectorBuilder_class value SelectorBuilder_constructor"

definition cssSelectorBuilder_attr :: "string \<Rightarrow> result" where
  "cssSelectorBuilder_attr value = SelectorBuilder_attr value SelectorBuilder_constructor"

definition cssSelectorBuilder_pseudoClass :: "string \<Rightarrow> result" where
  "cssSelectorBuilder_pseudoClass value =
     SelectorBuilder_pseudoClass value SelectorBuilder_constructor"

definition cssSelectorBuilder_pseudoElement :: "string \<Rightarrow> result" where
  "cssSelectorBuilder_pseudoElement value =
     SelectorBuilder_pseudoElement value SelectorBuilder_constructor"

definition cssSelectorBuilder_combine ::
  "SelectorBuilder \<Rightarrow> string \<Rightarrow> SelectorBuilder \<Rightarrow> result" where
  "cssSelectorBuilder_combine selector1 combinator' selector2 =
     SelectorBuilder_combine selector1 combinator' selector2 SelectorBuilder_constructor"

text \<open>
  The value of the expression \<^verbatim>\<open>r.stringify()\<close>: the accumulated text, or the error that
  the chain before the dot has thrown.
\<close>

fun stringify_on :: "result \<Rightarrow> error + string" where
  "stringify_on (Returns this) = Inr (stringify this)"
| "stringify_on (Throws e this) = Inl e"

subsection \<open>Categories and sequences of calls\<close>

text \<open>
  The six append methods differ only in the type string they pass to \<^verbatim>\<open>add\<close>. A
  category names one of them; \<open>append_fragment\<close> is the call of that method.
\<close>

datatype category = CatElement | CatId | CatClass | CatAttr | CatPseudoClass | CatPseudoElement

fun type_name :: "category \<Rightarrow> string" where
  "type_name CatElement = ''element''"
| "type_name CatId = ''id''"
| "type_name CatClass = ''class''"
| "type_name CatAttr = ''attr''"
| "type_name CatPseudoClass = ''pseudo-class''"
| "type_name CatPseudoElement = ''pseudo-element''"

fun append_fragment :: "category \<Rightarrow> string \<Rightarrow> SelectorBuilder \<Rightarrow> result" where
  "append_fragment CatElement = SelectorBuilder_element"
| "append_fragment CatId = SelectorBuilder_id"
| "append_fragment CatClass = SelectorBuilder_class"
| "append_fragment CatAttr = SelectorBuilder_attr"
| "append_fragment CatPseudoClass = SelectorBuilder_pseudoClass"
| "append_fragment CatPseudoElement = SelectorBuilder_pseudoElement"

text \<open>
  The fixed order of the specification:
  element < id < class < attribute < pseudo-class < pseudo-element.
\<close>

fun category_position :: "category \<Rightarrow> nat" where
  "category_position CatElement = 0"
| "category_position CatId = 1"
| "category_position CatClass = 2"
| "category_position CatAttr = 3"
| "category_position CatPseudoClass = 4"
| "category_position CatPseudoElement = 5"

definition singleton_category :: "category \<Rightarrow> bool" where
  "singleton_category c = (c = CatElement \<or> c = CatId \<or> c = CatPseudoElement)"

text \<open>The formatted fragment of each category, as the specification lists them.\<close>

fun formatted :: "category \<Rightarrow> string \<Rightarrow> string" where
  "formatted CatElement v = v"
| "formatted CatId v = ''#'' @ v"
| "formatted CatClass v = ''.'' @ v"
| "formatted CatAttr v = ''['' @ v @ '']''"
| "formatted CatPseudoClass v = '':'' @ v"
| "formatted CatPseudoElement v = ''::'' @ v"

text \<open>
  A builder is used through its mutating methods: the six append methods and
  \<^verbatim>\<open>combine\<close>. \<open>calls cs this\<close> makes the calls \<open>cs\<close> on one builder, in order,
  as the chain \<^verbatim>\<open>this.m1(..).m2(..)...\<close> does. \<open>appended cs\<close> lists the categories of
  the append calls among \<open>cs\<close>, and \<open>last_appended cs\<close> is the category of the latest one.
\<close>

datatype call = Append category string | Combine SelectorBuilder string SelectorBuilder

fun perform :: "call \<Rightarrow> SelectorBuilder \<Rightarrow> result" where
  "perform (Append c v) = append_fragment c v"
| "perform (Combine selector1 combinator' selector2) =
     SelectorBuilder_combine selector1 combinator' selector2"

definition calls :: "call list \<Rightarrow> SelectorBuilder \<Rightarrow> result" where
  "calls cs = block (map perform cs)"

fun appended :: "call list \<Rightarrow> category list" where
  "appended [] = []"
| "appended (Append c v # cs) = c # appended cs"
| "appended (Combine selector1 combinator' selector2 # cs) = appended cs"

definition last_appended :: "call list \<Rightarrow> category option" where
  "last_appended cs = (if appended cs = [] then None else Some (last (appended cs)))"

text \<open>
  The acceptance rule as the specification words it: a category may follow a strictly
  earlier one, and may follow itself only when it is class or attribute.
\<close>

definition claimed_may_follow :: "category option \<Rightarrow> category \<Rightarrow> bool" where
  "claimed_may_follow prev c =
     (case prev of
        None \<Rightarrow> True
      | Some p \<Rightarrow> category_position p < category_position c
                  \<or> (c = p \<and> (c = CatClass \<or> c = CatAttr)))"

text \<open>
  The acceptance rule that the builder implements: pseudo-class may follow itself too.
\<close>

definition may_follow :: "category option \<Rightarrow> category \<Rightarrow> bool" where
  "may_follow prev c =
     (case prev of
        None \<Rightarrow> True
      | Some p \<Rightarrow> category_position p < category_position c
                  \<or> (c = p \<and> (c = CatClass \<or> c = CatAttr \<or> c = CatPseudoClass)))"

text \<open>
  The valid orderings of the specification: a subsequence of
  element, id, class*, attr*, pseudo-class, pseudo-element, that is, positions never
  decrease and only class and attr occur more than once.
\<close>

definition valid_ordering :: "category list \<Rightarrow> bool" where
  "valid_ordering cats =
     sorted_wrt (\<lambda>c d. category_position c < category_position d
                        \<or> (c = d \<and> (c = CatClass \<or> c = CatAttr))) cats"

text \<open>What a caller observes of a chain: whether it returned, and the error it threw.\<close>

fun returned :: "result \<Rightarrow> bool" where
  "returned (Returns this) = True"
| "returned (Throws e this) = False"

fun thrown :: "result \<Rightarrow> error option" where
  "thrown (Returns this) = None"
| "thrown (Throws e this) = Some e"

text \<open>
  The bookkeeping of a builder follows its history \<open>cs\<close>: \<^verbatim>\<open>current\<close> is the type of
  the latest appended category, \<^verbatim>\<open>occurences\<close> flags exactly the appended categories,
  and no appended category lies after the latest one.
\<close>

definition tracks :: "call list \<Rightarrow> SelectorBuilder \<Rightarrow> bool" where
  "tracks cs this \<longleftrightarrow>
     current this = map_option type_name (last_appended cs) \<and>
     (\<forall>c. occurences this (type_name c) = Some True \<longleftrightarrow> c \<in> set (appended cs)) \<and>
     (\<forall>c p. c \<in> set (appended cs) \<longrightarrow> last_appended cs = Some p \<longrightarrow>
        category_position c \<le> category_position p)"

section \<open>The JSON helpers \<^verbatim>\<open>getJSON\<close> and \<^verbatim>\<open>fromJSON\<close>\<close>

subsection \<open>Values\<close>

text \<open>
  \<^verbatim>\<open>getJSON\<close> and \<^verbatim>\<open>fromJSON\<close> consist of calls of the built-ins \<^verbatim>\<open>JSON.stringify\<close>,
  \<^verbatim>\<open>JSON.parse\<close>, \<^verbatim>\<open>Object.create\<close> and \<^verbatim>\<open>Object.assign\<close>. The built-ins are
  written out below as ECMAScript documents them, on the values that JSON can represent:
  \<^verbatim>\<open>null\<close>, booleans, numbers, strings, arrays and plain objects. A plain object is the
  list of its own enumerable properties in enumeration order. Two restrictions bound the
  value domain: a number is an integer (exact and printed in plain decimal between
  \<open>-(2^53 - 1)\<close> and \<open>2^53 - 1\<close>), and a string is a list of code units below 256.
\<close>

datatype jsvalue =
    JNull | JBool bool | JNumber int | JString string
  | JArray "jsvalue list" | JObject "(string \<times> jsvalue) list"

text \<open>
  The two exceptions the built-ins throw here, and two outcomes that mark where the
  parser below stops: \<open>Unmodelled\<close> for a text outside the value domain (a number with a
  fraction or an exponent or beyond \<open>2^53 - 1\<close>, a \<^verbatim>\<open>\u\<close> escape above 255), and \<open>OutOfFuel\<close>,
  which \<open>JSON_parse\<close> never returns (\<open>JSON_parse_fuel\<close> below).
\<close>

datatype js_error = SyntaxError | TypeError | Unmodelled | OutOfFuel

subsection \<open>\<^verbatim>\<open>JSON.stringify\<close>\<close>

definition quote :: char where
  "quote = CHR 0x22"

definition backslash :: char where
  "backslash = CHR 0x5C"





definition hex_digit :: "nat \<Rightarrow> char" where
  "hex_digit a = ''0123456789abcdef'' ! a"

text \<open>
  String quoting: the quotation mark, the backslash and the control characters are
  escaped, the latter with the short forms for backspace, form feed, line feed, carriage
  return and tab and with \<^verbatim>\<open>\u00xx\<close> (lower-case hexadecimal) otherwise.
\<close>

definition escape_char :: "char \<Rightarrow> string" where
  "escape_char c =
     (if c = quote then [backslash, quote]
      else if c = backslash then [backslash, backslash]
      else if c = CHR 0x08 then [backslash, CHR ''b'']
      else if c = CHR 0x0C then [backslash, CHR ''f'']
      else if c = CHR 0x0A then [backslash, CHR ''n'']
      else if c = CHR 0x0D then [backslash, CHR ''r'']
      else if c = CHR 0x09 then [backslash, CHR ''t'']
      else if (of_char c :: nat) < 32
        then [backslash, CHR ''u'', CHR ''0'', CHR ''0'',
              hex_digit (of_char c div 16), hex_digit (of_char c mod 16)]
      else [c])"

definition quoted :: "string \<Rightarrow> string" where
  "quoted s = quote # concat (map escape_char s) @ [quote]"



subsection \<open>\<^verbatim>\<open>JSON.parse\<close>\<close>

text \<open>
  A recursive-descent reader of the JSON grammar. White space (space, tab, line feed,
  carriage return) is allowed around every token.
\<close>

definition is_ws :: "char \<Rightarrow> bool" where
  "is_ws c = (c = CHR 0x20 \<or> c = CHR 0x09 \<or> c = CHR 0x0A \<or> c = CHR 0x0D)"

definition skip_ws :: "string \<Rightarrow> string" where
  "skip_ws s = dropWhile is_ws s"

definition is_digit :: "char \<Rightarrow> bool" where
  "is_digit c = (48 \<le> (of_char c :: nat) \<and> (of_char c :: nat) \<le> 57)"

definition digit_value :: "char \<Rightarrow> nat" where
  "digit_value c = of_char c - 48"

definition digits_value :: "string \<Rightarrow> nat" where
  "digits_value ds = foldl (\<lambda>a c. 10 * a + digit_value c) 0 ds"

definition hex_value :: "char \<Rightarrow> nat option" where
  "hex_value c =
     (let n = (of_char c :: nat) in
      if 48 \<le> n \<and> n \<le> 57 then Some (n - 48)
      else if 97 \<le> n \<and> n \<le> 102 then Some (n - 87)
      else if 65 \<le> n \<and> n \<le> 70 then Some (n - 55)
      else None)"

fun hex4 :: "string \<Rightarrow> nat option" where
  "hex4 [a, b, c, d] =
     (case (hex_value a, hex_value b, hex_value c, hex_value d) of
        (Some x, Some y, Some z, Some w) \<Rightarrow> Some (((x * 16 + y) * 16 + z) * 16 + w)
      | _ \<Rightarrow> None)"
| "hex4 _ = None"

definition unescape :: "char \<Rightarrow> char option" where
  "unescape e =
     (if e = quote then Some quote
      else if e = backslash then Some backslash
      else if e = CHR ''/'' then Some CHR ''/''
      else if e = CHR ''b'' then Some (CHR 0x08)
      else if e = CHR ''f'' then Some (CHR 0x0C)
      else if e = CHR ''n'' then Some (CHR 0x0A)
      else if e = CHR ''r'' then Some (CHR 0x0D)
      else if e = CHR ''t'' then Some (CHR 0x09)
      else None)"

fun cons_char :: "char \<Rightarrow> js_error + string \<times> string \<Rightarrow> js_error + string \<times> string" where
  "cons_char c (Inl e) = Inl e"
| "cons_char c (Inr (s, rest)) = Inr (c # s, rest)"

text \<open>
  The characters of a string after its opening quotation mark, up to the closing one. A
  raw control character is a syntax error.
\<close>

fun parse_string :: "string \<Rightarrow> js_error + string \<times> string" where
  "parse_string [] = Inl SyntaxError"
| "parse_string (c # cs) =
     (if c = quote then Inr ([], cs)
      else if c = backslash then
        (case cs of
           [] \<Rightarrow> Inl SyntaxError
         | e # r \<Rightarrow>
             if e = CHR ''u'' then
               (case hex4 (take 4 r) of
                  None \<Rightarrow> Inl SyntaxError
                | Some n \<Rightarrow> if n < 256 then cons_char (char_of n) (parse_string (drop 4 r))
                            else Inl Unmodelled)
             else
               (case unescape e of
                  None \<Rightarrow> Inl SyntaxError
                | Some d \<Rightarrow> cons_char d (parse_string r)))
      else if (of_char c :: nat) < 32 then Inl SyntaxError
      else cons_char c (parse_string cs))"

text \<open>
  An integer literal: a maximal run of digits without a leading zero, after an optional
  minus sign.
\<close>

definition parse_digits :: "string \<Rightarrow> js_error + nat \<times> string" where
  "parse_digits s =
     (let ds = takeWhile is_digit s;
          rest = dropWhile is_digit s
      in if ds = [] then Inl SyntaxError
         else if 1 < length ds \<and> hd ds = CHR ''0'' then Inl SyntaxError
         else if rest \<noteq> [] \<and> (hd rest = CHR ''.'' \<or> hd rest = CHR ''e'' \<or> hd rest = CHR ''E'')
           then Inl Unmodelled
         else if 9007199254740991 < digits_value ds then Inl Unmodelled
         else Inr (digits_value ds, rest))"

definition parse_number :: "string \<Rightarrow> js_error + jsvalue \<times> string" where
  "parse_number s =
     (if s \<noteq> [] \<and> hd s = CHR ''-''
      then (case parse_digits (tl s) of
              Inl e \<Rightarrow> Inl e
            | Inr (n, rest) \<Rightarrow> Inr (JNumber (- int n), rest))
      else (case parse_digits s of
              Inl e \<Rightarrow> Inl e
            | Inr (n, rest) \<Rightarrow> Inr (JNumber (int n), rest)))"

text \<open>
  An object literal defines its members in text order; a repeated key overwrites the
  earlier value in place.
\<close>

fun put_property :: "string \<Rightarrow> jsvalue \<Rightarrow> (string \<times> jsvalue) list \<Rightarrow> (string \<times> jsvalue) list" where
  "put_property k v [] = [(k, v)]"
| "put_property k v ((k', v') # kvs) =
     (if k' = k then (k, v) # kvs else (k', v') # put_property k v kvs)"

definition define_properties :: "(string \<times> jsvalue) list \<Rightarrow> (string \<times> jsvalue) list" where
  "define_properties kvs = foldl (\<lambda>acc (k, v). put_property k v acc) [] kvs"

text \<open>
  Values, the elements of an array after its opening bracket and the members of an
  object after its opening brace. Every recursive call takes one unit of fuel;
  \<open>JSON_parse\<close> supplies more than twice the length of the text.
\<close>

fun parse_value :: "nat \<Rightarrow> string \<Rightarrow> js_error + jsvalue \<times> string"
  and parse_elements :: "nat \<Rightarrow> string \<Rightarrow> js_error + jsvalue list \<times> string"
  and parse_members :: "nat \<Rightarrow> string \<Rightarrow> js_error + (string \<times> jsvalue) list \<times> string" where
  "parse_value 0 s = Inl OutOfFuel"
| "parse_value (Suc f) s =
     (let t = skip_ws s in
      if t = [] then Inl SyntaxError
      else if take 4 t = ''null'' then Inr (JNull, drop 4 t)
      else if take 4 t = ''true'' then Inr (JBool True, drop 4 t)
      else if take 5 t = ''false'' then Inr (JBool False, drop 5 t)
      else if hd t = quote then
        (case parse_string (tl t) of
           Inl e \<Rightarrow> Inl e
         | Inr (str, rest) \<Rightarrow> Inr (JString str, rest))
      else if hd t = CHR ''['' then
        (if skip_ws (tl t) \<noteq> [] \<and> hd (skip_ws (tl t)) = CHR '']''
         then Inr (JArray [], tl (skip_ws (tl t)))
         else (case parse_elements f (tl t) of
                 Inl e \<Rightarrow> Inl e
               | Inr (vs, rest) \<Rightarrow> Inr (JArray vs, rest)))
      else if hd t = CHR ''{'' then
        (if skip_ws (tl t) \<noteq> [] \<and> hd (skip_ws (tl t)) = CHR ''}''
         then Inr (JObject [], tl (skip_ws (tl t)))
         else (case parse_members f (tl t) of
                 Inl e \<Rightarrow> Inl e
               | Inr (kvs, rest) \<Rightarrow> Inr (JObject (define_properties kvs), rest)))
      else if hd t = CHR ''-'' \<or> is_digit (hd t) then parse_number t
      else Inl SyntaxError)"
| "parse_elements 0 s = Inl OutOfFuel"
| "parse_elements (Suc f) s =
     (case parse_value f s of
        Inl e \<Rightarrow> Inl e
      | Inr (v, rest) \<Rightarrow>
          (let t = skip_ws rest in
           if t = [] then Inl SyntaxError
           else if hd t = CHR '','' then
             (case parse_elements f (tl t) of
                Inl e \<Rightarrow> Inl e
              | Inr (vs, rest') \<Rightarrow> Inr (v # vs, rest'))
           else if hd t = CHR '']'' then Inr ([v], tl t)
           else Inl SyntaxError))"
| "parse_members 0 s = Inl OutOfFuel"
| "parse_members (Suc f) s =
     (let t = skip_ws s in
      if t = [] \<or> hd t \<noteq> quote then Inl SyntaxError
      else
        (case parse_string (tl t) of
           Inl e \<Rightarrow> Inl e
         | Inr (k, rest) \<Rightarrow>
             (let u = skip_ws rest in
              if u = [] \<or> hd u \<noteq> CHR '':'' then Inl SyntaxError
              else
                (case parse_value f (tl u) of
                   Inl e \<Rightarrow> Inl e
                 | Inr (v, rest') \<Rightarrow>
                     (let w = skip_ws rest' in
                      if w = [] then Inl SyntaxError
                      else if hd w = CHR '','' then
                        (case parse_members f (tl w) of
                           Inl e \<Rightarrow> Inl e
                         | Inr (kvs, rest'') \<Rightarrow> Inr ((k, v) # kvs, rest''))
                      else if hd w = CHR ''}'' then Inr ([(k, v)], tl w)
                      else Inl SyntaxError)))))"

definition JSON_parse :: "string \<Rightarrow> js_error + jsvalue" where
  "JSON_parse s =
     (case parse_value (Suc (length s + length s)) s of
        Inl e \<Rightarrow> Inl e
      | Inr (v, rest) \<Rightarrow> if skip_ws rest = [] then Inr v else Inl SyntaxError)"

subsection \<open>Objects, prototypes and \<^verbatim>\<open>Object.assign\<close>\<close>














subsection \<open>\<^verbatim>\<open>getJSON\<close> and \<^verbatim>\<open>fromJSON\<close>\<close>





text \<open>The characters that may follow a value inside a JSON text.\<close>

definition terminated :: "string \<Rightarrow> bool" where
  "terminated rest \<longleftrightarrow>
     rest = [] \<or> hd rest = CHR '','' \<or> hd rest = CHR '']'' \<or> hd rest = CHR ''}''"

section \<open>Basic facts\<close>

lemma call_on_Returns [simp]: "call_on r Returns = r"
  by (cases r) simp_all

lemma block_append: "block (ss @ ts) this = call_on (block ss this) (block ts)"
proof (induction ss arbitrary: this)
  case Nil
  show ?case by simp
next
  case (Cons s ss)
  show ?case
  proof (cases "s this")
    case (Returns this')
    then show ?thesis using Cons.IH [of this'] by simp
  next
    case (Throws e this')
    then show ?thesis by simp
  qed
qed

lemma block_Nil_fun: "block [] = Returns"
  by (rule ext) simp

lemma block_single [simp]: "block [s] = s"
  by (rule ext) (simp add: block_Nil_fun)

lemma calls_Nil [simp]: "calls [] this = Returns this"
  by (simp add: calls_def)

lemma calls_Cons: "calls (x # cs) this = call_on (perform x this) (calls cs)"
  by (simp add: calls_def)

lemma calls_snoc: "calls (cs @ [x]) this = call_on (calls cs this) (perform x)"
  by (simp add: calls_def block_append)

lemma type_name_inj [simp]: "type_name c = type_name d \<longleftrightarrow> c = d"
  by (cases c; cases d) simp_all

lemma indexOf_type_name:
  "indexOf (map Some SelectorBuilder_order) (Some (type_name c)) = int (category_position c)"
  by (cases c) (simp_all add: indexOf_def SelectorBuilder_order_def)

lemma indexOf_undefined: "indexOf (map Some SelectorBuilder_order) None = - 1"
  by (simp add: indexOf_def SelectorBuilder_order_def)

lemma append_fragment_add: "append_fragment c v = SelectorBuilder_add (type_name c) v"
  by (cases c)
    (auto simp: SelectorBuilder_element_def SelectorBuilder_id_def SelectorBuilder_class_def
      SelectorBuilder_attr_def SelectorBuilder_pseudoClass_def SelectorBuilder_pseudoElement_def)

lemma add_type_name:
  "SelectorBuilder_add (type_name c) v this =
     (if occurences this (type_name c) = Some True \<and> singleton_category c
      then Throws (Error SelectorBuilder_error2) this
      else if int (category_position c) < indexOf (map Some SelectorBuilder_order) (current this)
      then Throws (Error SelectorBuilder_error1) this
      else Returns (this\<lparr>current := Some (type_name c),
                         occurences := (occurences this)(type_name c \<mapsto> True),
                         selector := selector this @ formatted c v\<rparr>))"
  unfolding indexOf_type_name [symmetric]
  by (cases c)
    (simp_all add: SelectorBuilder_add_def singleton_category_def displayUniqueError_def
      displayOrderError_def)

lemma appended_snoc:
  "appended (cs @ [x]) = appended cs @ (case x of Append c v \<Rightarrow> [c] | Combine a k b \<Rightarrow> [])"
  by (induction cs rule: appended.induct) (simp_all split: call.splits)

lemma tracks_constructor: "tracks [] SelectorBuilder_constructor"
proof -
  have "occurences SelectorBuilder_constructor (type_name c) \<noteq> Some True" for c
    by (cases c) (simp_all add: SelectorBuilder_constructor_def)
  then show ?thesis
    by (simp add: tracks_def last_appended_def SelectorBuilder_constructor_def)
qed

lemma tracks_combine:
  assumes "tracks cs this" and "SelectorBuilder_combine a k b this = Returns this'"
  shows "tracks (cs @ [Combine a k b]) this'"
  using assms
  by (auto simp: tracks_def SelectorBuilder_combine_def last_appended_def appended_snoc)

lemma tracks_append:
  assumes "tracks cs this" and "append_fragment c v this = Returns this'"
  shows "tracks (cs @ [Append c v]) this'"
proof -
  from assms(1) have cur: "current this = map_option type_name (last_appended cs)"
    and occ: "\<And>d. occurences this (type_name d) = Some True \<longleftrightarrow> d \<in> set (appended cs)"
    and ord: "\<And>d p. d \<in> set (appended cs) \<Longrightarrow> last_appended cs = Some p \<Longrightarrow>
                category_position d \<le> category_position p"
    by (simp_all add: tracks_def)
  from assms(2) have
    noorder: "\<not> int (category_position c) < indexOf (map Some SelectorBuilder_order) (current this)"
    and this': "this' = this\<lparr>current := Some (type_name c),
                         occurences := (occurences this)(type_name c \<mapsto> True),
                         selector := selector this @ formatted c v\<rparr>"
    by (simp_all add: append_fragment_add add_type_name split: if_splits)
  have last: "last_appended (cs @ [Append c v]) = Some c"
    by (simp add: last_appended_def appended_snoc)
  have "category_position d \<le> category_position c" if "d \<in> set (appended cs)" for d
  proof (cases "last_appended cs")
    case None
    with that show ?thesis by (simp add: last_appended_def split: if_splits)
  next
    case (Some p)
    with noorder cur have "category_position p \<le> category_position c"
      by (simp add: indexOf_type_name)
    with ord [OF that Some] show ?thesis by simp
  qed
  then show ?thesis
    unfolding tracks_def last
    by (auto simp: this' occ appended_snoc)
qed

lemma tracks_calls:
  "calls cs SelectorBuilder_constructor = Returns this \<Longrightarrow> tracks cs this"
proof (induction cs arbitrary: this rule: rev_induct)
  case Nil
  then show ?case using tracks_constructor by simp
next
  case (snoc x cs)
  from snoc.prems obtain mid where mid: "calls cs SelectorBuilder_constructor = Returns mid"
    and step: "perform x mid = Returns this"
    by (cases "calls cs SelectorBuilder_constructor") (simp_all add: calls_snoc)
  from snoc.IH [OF mid] have "tracks cs mid" .
  with step show ?case
    by (cases x) (auto intro: tracks_append tracks_combine)
qed

lemma append_fragment_Returns_iff:
  "(\<exists>this'. append_fragment c v this = Returns this') \<longleftrightarrow>
     \<not> (occurences this (type_name c) = Some True \<and> singleton_category c) \<and>
     \<not> int (category_position c) < indexOf (map Some SelectorBuilder_order) (current this)"
  by (simp add: append_fragment_add add_type_name)

lemma accepts_iff:
  assumes "tracks cs this"
  shows "(\<exists>this'. append_fragment c v this = Returns this') \<longleftrightarrow> may_follow (last_appended cs) c"
proof (cases "last_appended cs")
  case None
  with assms have "current this = None" and "c \<notin> set (appended cs)"
    by (simp_all add: tracks_def last_appended_def split: if_splits)
  with assms None show ?thesis
    unfolding append_fragment_Returns_iff
    by (simp add: tracks_def may_follow_def indexOf_undefined)
next
  case (Some p)
  with assms have cur: "current this = Some (type_name p)"
    and occ: "\<And>d. occurences this (type_name d) = Some True \<longleftrightarrow> d \<in> set (appended cs)"
    and ord: "\<And>d. d \<in> set (appended cs) \<Longrightarrow> category_position d \<le> category_position p"
    and p: "p \<in> set (appended cs)"
    by (auto simp: tracks_def last_appended_def split: if_splits)
  have inj: "category_position c = category_position p \<Longrightarrow> c = p"
    by (cases c; cases p) simp_all
  show ?thesis
  proof
    assume "\<exists>this'. append_fragment c v this = Returns this'"
    then have a: "\<not> (c \<in> set (appended cs) \<and> singleton_category c)"
      and b: "category_position p \<le> category_position c"
      unfolding append_fragment_Returns_iff
      by (simp_all add: cur occ indexOf_type_name)
    show "may_follow (last_appended cs) c"
    proof (cases "category_position p < category_position c")
      case True
      then show ?thesis by (simp add: Some may_follow_def)
    next
      case False
      with b have "category_position c = category_position p" by simp
      then have "c = p" by (rule inj)
      with a p have "\<not> singleton_category c" by simp
      then have "c = CatClass \<or> c = CatAttr \<or> c = CatPseudoClass"
        by (cases c) (simp_all add: singleton_category_def)
      with \<open>c = p\<close> show ?thesis by (simp add: Some may_follow_def)
    qed
  next
    assume "may_follow (last_appended cs) c"
    then consider "category_position p < category_position c"
      | "c = p" "c = CatClass \<or> c = CatAttr \<or> c = CatPseudoClass"
      by (auto simp: Some may_follow_def)
    then show "\<exists>this'. append_fragment c v this = Returns this'"
    proof cases
      case 1
      with ord [of c] have "c \<notin> set (appended cs)" by auto
      with 1 show ?thesis
        unfolding append_fragment_Returns_iff
        by (simp add: cur occ indexOf_type_name)
    next
      case 2
      then have "\<not> singleton_category c" by (auto simp: singleton_category_def)
      with 2 show ?thesis
        unfolding append_fragment_Returns_iff
        by (simp add: cur occ indexOf_type_name)
    qed
  qed
qed

lemma returned_iff: "returned r \<longleftrightarrow> (\<exists>this. r = Returns this)"
  by (cases r) simp_all

lemma errors_differ: "SelectorBuilder_error1 \<noteq> SelectorBuilder_error2"
  by (simp add: SelectorBuilder_error1_def SelectorBuilder_error2_def)

lemma error1_text:
  "SelectorBuilder_error1 = ''Selector parts should be arranged in the following order: element, id, class, attribute, pseudo-class, pseudo-element''"
  by (simp add: SelectorBuilder_error1_def)

lemma error2_text:
  "SelectorBuilder_error2 = ''Element, id and pseudo-element should not occur more then one time inside the selector''"
  by (simp add: SelectorBuilder_error2_def)

lemmas run_simps = calls_def SelectorBuilder_element_def SelectorBuilder_id_def
  SelectorBuilder_class_def SelectorBuilder_attr_def SelectorBuilder_pseudoClass_def
  SelectorBuilder_pseudoElement_def SelectorBuilder_add_def SelectorBuilder_constructor_def
  indexOf_def SelectorBuilder_order_def displayUniqueError_def displayOrderError_def
  SelectorBuilder_error1_def SelectorBuilder_error2_def stringify_def

lemma append_fragment_selector:
  "append_fragment c v this = Returns this' \<Longrightarrow> selector this' = selector this @ formatted c v"
  by (auto simp: append_fragment_add add_type_name split: if_splits)

lemma appended_Append [simp]: "appended (map (\<lambda>(c, v). Append c v) fs) = map fst fs"
  by (induction fs) auto

lemma valid_ordering_snoc:
  assumes "valid_ordering (cats @ [c])"
  shows "valid_ordering cats"
    and "may_follow (if cats = [] then None else Some (last cats)) c"
proof -
  from assms show "valid_ordering cats"
    by (simp add: valid_ordering_def sorted_wrt_append)
  show "may_follow (if cats = [] then None else Some (last cats)) c"
  proof (cases "cats = []")
    case True
    then show ?thesis by (simp add: may_follow_def)
  next
    case False
    then have "last cats \<in> set cats" by simp
    with assms have "category_position (last cats) < category_position c
        \<or> (last cats = c \<and> (last cats = CatClass \<or> last cats = CatAttr))"
      by (simp add: valid_ordering_def sorted_wrt_append)
    with False show ?thesis by (auto simp: may_follow_def)
  qed
qed

lemma valid_ordering_run:
  "valid_ordering (map fst fs) \<Longrightarrow>
   \<exists>this. calls (map (\<lambda>(c, v). Append c v) fs) SelectorBuilder_constructor = Returns this \<and>
          selector this = concat (map (\<lambda>(c, v). formatted c v) fs)"
proof (induction fs rule: rev_induct)
  case Nil
  show ?case by (simp add: SelectorBuilder_constructor_def)
next
  case (snoc x fs)
  obtain c v where x: "x = (c, v)" by (cases x)
  from snoc.prems have valid: "valid_ordering (map fst fs @ [c])"
    by (simp add: x)
  from snoc.IH [OF valid_ordering_snoc(1) [OF valid]] obtain this
    where run: "calls (map (\<lambda>(c, v). Append c v) fs) SelectorBuilder_constructor = Returns this"
      and sel: "selector this = concat (map (\<lambda>(c, v). formatted c v) fs)"
    by blast
  from run have "tracks (map (\<lambda>(c, v). Append c v) fs) this"
    by (rule tracks_calls)
  moreover from valid_ordering_snoc(2) [OF valid]
  have "may_follow (last_appended (map (\<lambda>(c, v). Append c v) fs)) c"
    by (cases "fs = []") (simp_all add: last_appended_def)
  ultimately obtain this' where step: "append_fragment c v this = Returns this'"
    using accepts_iff [of "map (\<lambda>(c, v). Append c v) fs" this c v] by blast
  from append_fragment_selector [OF step] sel
  have "selector this' = concat (map (\<lambda>(c, v). formatted c v) (fs @ [x]))"
    by (simp add: x)
  moreover have "calls (map (\<lambda>(c, v). Append c v) (fs @ [x])) SelectorBuilder_constructor
      = Returns this'"
    by (simp add: x calls_snoc run step)
  ultimately show ?case by blast
qed

lemma repeated_no_duplicate_error:
  assumes "\<not> singleton_category c"
  shows "thrown (calls (map (Append c) vs) this) \<noteq> Some (Error SelectorBuilder_error2)"
proof (induction vs arbitrary: this)
  case Nil
  show ?case by simp
next
  case (Cons v vs)
  show ?case
  proof (cases "append_fragment c v this")
    case (Returns this')
    with Cons.IH [of this'] show ?thesis
      by (simp add: calls_Cons)
  next
    case (Throws e this')
    with assms have "e = Error SelectorBuilder_error1"
      by (simp add: append_fragment_add add_type_name split: if_splits)
    with Throws show ?thesis
      by (simp add: calls_Cons errors_differ)
  qed
qed

lemma duplicate_error_singleton:
  assumes "thrown (append_fragment d w this) = Some (Error SelectorBuilder_error2)"
  shows "singleton_category d"
  using assms
  by (simp add: append_fragment_add add_type_name errors_differ split: if_splits)

section \<open>Properties of the specification\<close>

text \<open>
  C4. For all builders \<open>A\<close> and \<open>B\<close> and every string \<open>c\<close>, \<^verbatim>\<open>combine(A, c, B)\<close> does not
  throw and its \<^verbatim>\<open>stringify()\<close> is \<open>A.stringify() + " " + c + " " + B.stringify()\<close>, through
  the facade and through the method on any receiver; with \<open>c = "+"\<close> the text is
  \<open>A.stringify() + " + " + B.stringify()\<close>.
\<close>

theorem combine_stringify:
  "stringify_on (cssSelectorBuilder_combine A c B) =
     Inr (stringify A @ '' '' @ c @ '' '' @ stringify B) \<and>
   stringify_on (SelectorBuilder_combine A c B this) =
     Inr (stringify A @ '' '' @ c @ '' '' @ stringify B) \<and>
   stringify_on (cssSelectorBuilder_combine A ''+'' B) =
     Inr (stringify A @ '' + '' @ stringify B)"
  by (simp add: cssSelectorBuilder_combine_def SelectorBuilder_combine_def stringify_def)

text \<open>
  C1, as the specification states it, fails: two pseudo-class fragments in a row are
  accepted, although the stated rule allows ties for class and attribute only.
\<close>

theorem pseudoClass_twice_accepted:
  "stringify_on (call_on (cssSelectorBuilder_pseudoClass ''hover'')
                         (SelectorBuilder_pseudoClass ''focus'')) = Inr '':hover:focus'' \<and>
   \<not> claimed_may_follow (Some CatPseudoClass) CatPseudoClass"
  by (simp add: cssSelectorBuilder_pseudoClass_def SelectorBuilder_pseudoClass_def
      SelectorBuilder_add_def SelectorBuilder_constructor_def indexOf_def
      SelectorBuilder_order_def stringify_def claimed_may_follow_def)

text \<open>
  C1, amended. On every builder reached from a fresh one by a sequence of calls that all
  returned, appending a fragment of category \<open>c\<close> is accepted exactly when \<open>c\<close> lies strictly
  after the latest appended category in the fixed order, or equals it and is class,
  attribute or pseudo-class (or nothing has been appended yet). In particular element, id
  and pseudo-element are rejected when appended twice in a row.
\<close>

theorem append_accepted_iff:
  assumes "returned (calls cs SelectorBuilder_constructor)"
  shows "returned (calls (cs @ [Append c v]) SelectorBuilder_constructor)
           \<longleftrightarrow> may_follow (last_appended cs) c"
proof -
  from assms obtain this where run: "calls cs SelectorBuilder_constructor = Returns this"
    by (auto simp: returned_iff)
  from run have "tracks cs this"
    by (rule tracks_calls)
  then have "(\<exists>this'. append_fragment c v this = Returns this')
               \<longleftrightarrow> may_follow (last_appended cs) c"
    by (rule accepts_iff)
  then show ?thesis
    by (simp add: calls_snoc run returned_iff)
qed

theorem append_accepted_iff_witness:
  "returned (calls [Append CatElement ''a'', Append CatPseudoClass ''hover''] SelectorBuilder_constructor) \<and>
   returned (calls ([Append CatElement ''a'', Append CatPseudoClass ''hover''] @ [Append CatPseudoClass ''focus''])
      SelectorBuilder_constructor) \<and>
   may_follow (last_appended [Append CatElement ''a'', Append CatPseudoClass ''hover'']) CatPseudoClass \<and>
   \<not> returned (calls ([Append CatElement ''a'', Append CatPseudoClass ''hover''] @ [Append CatId ''main''])
      SelectorBuilder_constructor) \<and>
   \<not> may_follow (last_appended [Append CatElement ''a'', Append CatPseudoClass ''hover'']) CatId"
proof -
  have h: "returned (calls [Append CatElement ''a'', Append CatPseudoClass ''hover''] SelectorBuilder_constructor)"
    by (simp add: calls_def SelectorBuilder_element_def SelectorBuilder_pseudoClass_def
        SelectorBuilder_add_def SelectorBuilder_constructor_def indexOf_def
        SelectorBuilder_order_def)
  have m: "may_follow (last_appended [Append CatElement ''a'', Append CatPseudoClass ''hover'']) CatPseudoClass"
    "\<not> may_follow (last_appended [Append CatElement ''a'', Append CatPseudoClass ''hover'']) CatId"
    by (simp_all add: may_follow_def last_appended_def)
  from h m append_accepted_iff [OF h, of CatPseudoClass "''focus''"]
    append_accepted_iff [OF h, of CatId "''main''"]
  show ?thesis by blast
qed

text \<open>
  C2. On every builder on which a fragment of category element, id or pseudo-element has
  been appended, appending a fragment of that category again throws the error with the
  message "Element, id and pseudo-element should not occur more then one time inside the
  selector".
\<close>

theorem second_singleton_throws:
  assumes "returned (calls cs SelectorBuilder_constructor)"
    and "c \<in> set (appended cs)"
    and "c = CatElement \<or> c = CatId \<or> c = CatPseudoElement"
  shows "thrown (calls (cs @ [Append c v]) SelectorBuilder_constructor) =
           Some (Error ''Element, id and pseudo-element should not occur more then one time inside the selector'')"
proof -
  from assms(1) obtain this where run: "calls cs SelectorBuilder_constructor = Returns this"
    by (auto simp: returned_iff)
  from run have "tracks cs this"
    by (rule tracks_calls)
  with assms(2) have "occurences this (type_name c) = Some True"
    by (simp add: tracks_def)
  moreover from assms(3) have "singleton_category c"
    by (simp add: singleton_category_def)
  ultimately have "append_fragment c v this = Throws (Error SelectorBuilder_error2) this"
    by (simp add: append_fragment_add add_type_name)
  then show ?thesis
    by (simp add: calls_snoc run error2_text)
qed

theorem second_singleton_throws_witness:
  "returned (calls [Append CatId ''main''] SelectorBuilder_constructor) \<and>
   CatId \<in> set (appended [Append CatId ''main'']) \<and>
   thrown (call_on (cssSelectorBuilder_id ''main'') (SelectorBuilder_id ''other'')) =
     Some (Error ''Element, id and pseudo-element should not occur more then one time inside the selector'')"
proof -
  have h: "returned (calls [Append CatId ''main''] SelectorBuilder_constructor)"
    by (simp add: run_simps)
  have a: "CatId \<in> set (appended [Append CatId ''main''])"
    by simp
  have chain: "call_on (cssSelectorBuilder_id ''main'') (SelectorBuilder_id ''other'') =
      calls ([Append CatId ''main''] @ [Append CatId ''other'']) SelectorBuilder_constructor"
    by (simp add: calls_def cssSelectorBuilder_id_def)
  from second_singleton_throws [OF h a, of "''other''"] h a show ?thesis
    unfolding chain by simp
qed

text \<open>
  C3, as the specification states it, fails: after id and class, appending id again lies
  strictly before the latest appended category, and the error thrown is the
  duplicate-singleton one, not the out-of-order one.
\<close>

theorem duplicate_before_order_counterexample:
  "returned (calls [Append CatId ''main'', Append CatClass ''box''] SelectorBuilder_constructor) \<and>
   last_appended [Append CatId ''main'', Append CatClass ''box''] = Some CatClass \<and>
   category_position CatId < category_position CatClass \<and>
   thrown (call_on (call_on (cssSelectorBuilder_id ''main'') (SelectorBuilder_class ''box''))
             (SelectorBuilder_id ''other'')) =
     Some (Error ''Element, id and pseudo-element should not occur more then one time inside the selector'') \<and>
   thrown (call_on (call_on (cssSelectorBuilder_id ''main'') (SelectorBuilder_class ''box''))
             (SelectorBuilder_id ''other'')) \<noteq>
     Some (Error ''Selector parts should be arranged in the following order: element, id, class, attribute, pseudo-class, pseudo-element'')"
  by (simp add: run_simps cssSelectorBuilder_id_def last_appended_def)

text \<open>
  C3, amended. On every builder, appending a fragment whose category lies strictly before
  the latest appended category throws the error with the message "Selector parts should be
  arranged in the following order: element, id, class, attribute, pseudo-class,
  pseudo-element", unless the category is element, id or pseudo-element and has already
  been appended on this builder. In particular id, then class, then element throws it.
\<close>

theorem earlier_category_throws_order_error:
  assumes "returned (calls cs SelectorBuilder_constructor)"
    and "last_appended cs = Some p"
    and "category_position c < category_position p"
    and "\<not> (c \<in> set (appended cs) \<and> (c = CatElement \<or> c = CatId \<or> c = CatPseudoElement))"
  shows "thrown (calls (cs @ [Append c v]) SelectorBuilder_constructor) =
           Some (Error ''Selector parts should be arranged in the following order: element, id, class, attribute, pseudo-class, pseudo-element'')"
proof -
  from assms(1) obtain this where run: "calls cs SelectorBuilder_constructor = Returns this"
    by (auto simp: returned_iff)
  from run have tr: "tracks cs this"
    by (rule tracks_calls)
  with assms(2) have cur: "current this = Some (type_name p)"
    by (simp add: tracks_def)
  from tr assms(4) have "\<not> (occurences this (type_name c) = Some True \<and> singleton_category c)"
    by (simp add: tracks_def singleton_category_def)
  with assms(3) have "append_fragment c v this = Throws (Error SelectorBuilder_error1) this"
    by (auto simp: append_fragment_add add_type_name cur indexOf_type_name)
  then show ?thesis
    by (simp add: calls_snoc run error1_text)
qed

theorem earlier_category_throws_order_error_witness:
  "returned (calls [Append CatId ''main'', Append CatClass ''box''] SelectorBuilder_constructor) \<and>
   last_appended [Append CatId ''main'', Append CatClass ''box''] = Some CatClass \<and>
   category_position CatElement < category_position CatClass \<and>
   \<not> (CatElement \<in> set (appended [Append CatId ''main'', Append CatClass ''box'']) \<and>
      (CatElement = CatElement \<or> CatElement = CatId \<or> CatElement = CatPseudoElement)) \<and>
   thrown (call_on (call_on (cssSelectorBuilder_id ''main'') (SelectorBuilder_class ''box''))
             (SelectorBuilder_element ''div'')) =
     Some (Error ''Selector parts should be arranged in the following order: element, id, class, attribute, pseudo-class, pseudo-element'')"
proof -
  have h1: "returned (calls [Append CatId ''main'', Append CatClass ''box''] SelectorBuilder_constructor)"
    by (simp add: run_simps)
  have h2: "last_appended [Append CatId ''main'', Append CatClass ''box''] = Some CatClass"
    by (simp add: last_appended_def)
  have h3: "category_position CatElement < category_position CatClass"
    by simp
  have h4: "\<not> (CatElement \<in> set (appended [Append CatId ''main'', Append CatClass ''box'']) \<and>
      (CatElement = CatElement \<or> CatElement = CatId \<or> CatElement = CatPseudoElement))"
    by simp
  have chain: "call_on (call_on (cssSelectorBuilder_id ''main'') (SelectorBuilder_class ''box''))
             (SelectorBuilder_element ''div'') =
      calls ([Append CatId ''main'', Append CatClass ''box''] @ [Append CatElement ''div''])
        SelectorBuilder_constructor"
    by (simp add: run_simps cssSelectorBuilder_id_def)
  from earlier_category_throws_order_error [OF h1 h2 h3 h4, of "''div''"] h1 h2 h3 h4
  show ?thesis
    unfolding chain by blast
qed

text \<open>
  C5. For every sequence of appends in a valid ordering (positions never decrease, only
  class and attr repeat), made on a fresh builder, \<^verbatim>\<open>stringify()\<close> returns the
  concatenation, without separators, of the formatted fragments; for example
  \<^verbatim>\<open>id('main').class('container').class('editable')\<close> gives \<^verbatim>\<open>#main.container.editable\<close>.
\<close>

theorem valid_ordering_stringify:
  assumes "valid_ordering (map fst fs)"
  shows "stringify_on (calls (map (\<lambda>(c, v). Append c v) fs) SelectorBuilder_constructor) =
           Inr (concat (map (\<lambda>(c, v). formatted c v) fs))"
proof -
  from valid_ordering_run [OF assms] obtain this
    where "calls (map (\<lambda>(c, v). Append c v) fs) SelectorBuilder_constructor = Returns this"
      and "selector this = concat (map (\<lambda>(c, v). formatted c v) fs)"
    by blast
  then show ?thesis by (simp add: stringify_def)
qed

theorem valid_ordering_stringify_witness:
  "valid_ordering (map fst [(CatId, ''main''), (CatClass, ''container''), (CatClass, ''editable'')]) \<and>
   stringify_on (call_on (call_on (cssSelectorBuilder_id ''main'')
       (SelectorBuilder_class ''container'')) (SelectorBuilder_class ''editable'')) =
     Inr ''#main.container.editable''"
proof -
  have h: "valid_ordering
      (map fst [(CatId, ''main''), (CatClass, ''container''), (CatClass, ''editable'')])"
    by (simp add: valid_ordering_def)
  have chain: "call_on (call_on (cssSelectorBuilder_id ''main'')
        (SelectorBuilder_class ''container'')) (SelectorBuilder_class ''editable'') =
      calls (map (\<lambda>(c, v). Append c v)
        [(CatId, ''main''), (CatClass, ''container''), (CatClass, ''editable'')])
        SelectorBuilder_constructor"
    by (simp add: run_simps cssSelectorBuilder_id_def)
  from valid_ordering_stringify [OF h] h show ?thesis
    unfolding chain by simp
qed

text \<open>
  C6. On every builder, any number of consecutive class calls, and any number of
  consecutive attr calls, never throws the duplicate-singleton error; an append that
  throws it is an append of element, id or pseudo-element.
\<close>

theorem class_attr_never_duplicate_error:
  assumes "c = CatClass \<or> c = CatAttr"
  shows "thrown (calls (map (Append c) vs) this) \<noteq>
           Some (Error ''Element, id and pseudo-element should not occur more then one time inside the selector'') \<and>
         (thrown (append_fragment d w this) =
            Some (Error ''Element, id and pseudo-element should not occur more then one time inside the selector'')
          \<longrightarrow> d = CatElement \<or> d = CatId \<or> d = CatPseudoElement)"
proof -
  from assms have "\<not> singleton_category c"
    by (auto simp: singleton_category_def)
  then have "thrown (calls (map (Append c) vs) this) \<noteq> Some (Error SelectorBuilder_error2)"
    by (rule repeated_no_duplicate_error)
  moreover have "singleton_category d"
    if "thrown (append_fragment d w this) = Some (Error SelectorBuilder_error2)"
    using that by (rule duplicate_error_singleton)
  ultimately show ?thesis
    unfolding error2_text by (simp add: singleton_category_def)
qed

theorem class_attr_never_duplicate_error_witness:
  "(CatAttr = CatClass \<or> CatAttr = CatAttr) \<and>
   thrown (calls (map (Append CatAttr) [''href'', ''title'', ''lang''])
     \<lparr>selector = ''#main'', combinator = '''', current = Some ''id'',
      occurences = (occurences SelectorBuilder_constructor)(''id'' \<mapsto> True)\<rparr>) \<noteq>
     Some (Error ''Element, id and pseudo-element should not occur more then one time inside the selector'') \<and>
   thrown (append_fragment CatId ''other''
     \<lparr>selector = ''#main'', combinator = '''', current = Some ''id'',
      occurences = (occurences SelectorBuilder_constructor)(''id'' \<mapsto> True)\<rparr>) =
     Some (Error ''Element, id and pseudo-element should not occur more then one time inside the selector'') \<and>
   (CatId = CatElement \<or> CatId = CatId \<or> CatId = CatPseudoElement)"
proof -
  have h: "CatAttr = CatClass \<or> CatAttr = CatAttr" by simp
  have t: "thrown (append_fragment CatId ''other''
     \<lparr>selector = ''#main'', combinator = '''', current = Some ''id'',
      occurences = (occurences SelectorBuilder_constructor)(''id'' \<mapsto> True)\<rparr>) =
     Some (Error ''Element, id and pseudo-element should not occur more then one time inside the selector'')"
    by (simp add: run_simps)
  from class_attr_never_duplicate_error [OF h, of "[''href'', ''title'', ''lang'']"
      "\<lparr>selector = ''#main'', combinator = '''', current = Some ''id'',
        occurences = (occurences SelectorBuilder_constructor)(''id'' \<mapsto> True)\<rparr>" CatId "''other''"] h t
  show ?thesis by blast
qed

text \<open>
  C7. For every category and every value, the first append on a freshly constructed
  builder passes the ordering comparison of \<^verbatim>\<open>add\<close>, returns, and so does not throw the
  out-of-order error.
\<close>

theorem first_append_passes_order_check:
  "\<not> indexOf (map Some SelectorBuilder_order) (Some (type_name c))
       < indexOf (map Some SelectorBuilder_order) (current SelectorBuilder_constructor) \<and>
   returned (append_fragment c v SelectorBuilder_constructor) \<and>
   thrown (append_fragment c v SelectorBuilder_constructor) \<noteq>
     Some (Error ''Selector parts should be arranged in the following order: element, id, class, attribute, pseudo-class, pseudo-element'')"
proof -
  have cur: "current SelectorBuilder_constructor = None"
    by (simp add: SelectorBuilder_constructor_def)
  have occ: "occurences SelectorBuilder_constructor (type_name c) \<noteq> Some True"
    by (cases c) (simp_all add: SelectorBuilder_constructor_def)
  have "\<not> int (category_position c) < - 1"
    by simp
  with occ show ?thesis
    by (simp add: append_fragment_add add_type_name cur indexOf_undefined indexOf_type_name)
qed

text \<open>
  C8. When an append violates both constraints at once (its category is element, id or
  pseudo-element and has been appended before, and it lies strictly before the latest
  appended category), both tests of \<^verbatim>\<open>add\<close> hold and the error thrown is the
  duplicate-singleton one, whose test comes first; for example id, class, then id again.
\<close>

theorem duplicate_checked_before_order:
  assumes "calls cs SelectorBuilder_constructor = Returns this"
    and "c \<in> set (appended cs)"
    and "c = CatElement \<or> c = CatId \<or> c = CatPseudoElement"
    and "last_appended cs = Some p"
    and "category_position c < category_position p"
  shows "occurences this (type_name c) = Some True \<and>
         indexOf (map Some SelectorBuilder_order) (Some (type_name c))
           < indexOf (map Some SelectorBuilder_order) (current this) \<and>
         append_fragment c v this =
           Throws (Error ''Element, id and pseudo-element should not occur more then one time inside the selector'') this"
proof -
  from assms(1) have tr: "tracks cs this"
    by (rule tracks_calls)
  with assms(4) have cur: "current this = Some (type_name p)"
    by (simp add: tracks_def)
  from tr assms(2) have occ: "occurences this (type_name c) = Some True"
    by (simp add: tracks_def)
  from assms(3) have single: "singleton_category c"
    by (simp add: singleton_category_def)
  from assms(5) have order: "indexOf (map Some SelectorBuilder_order) (Some (type_name c))
           < indexOf (map Some SelectorBuilder_order) (current this)"
    by (simp add: cur indexOf_type_name)
  from occ single have "append_fragment c v this = Throws (Error SelectorBuilder_error2) this"
    by (simp add: append_fragment_add add_type_name)
  with occ order show ?thesis
    by (simp add: error2_text)
qed

theorem duplicate_checked_before_order_witness:
  "calls [Append CatId ''main'', Append CatClass ''box''] SelectorBuilder_constructor =
     Returns \<lparr>selector = ''#main.box'', combinator = '''', current = Some ''class'',
       occurences = (occurences SelectorBuilder_constructor)(''id'' \<mapsto> True, ''class'' \<mapsto> True)\<rparr> \<and>
   CatId \<in> set (appended [Append CatId ''main'', Append CatClass ''box'']) \<and>
   (CatId = CatElement \<or> CatId = CatId \<or> CatId = CatPseudoElement) \<and>
   last_appended [Append CatId ''main'', Append CatClass ''box''] = Some CatClass \<and>
   category_position CatId < category_position CatClass \<and>
   append_fragment CatId ''other''
     \<lparr>selector = ''#main.box'', combinator = '''', current = Some ''class'',
       occurences = (occurences SelectorBuilder_constructor)(''id'' \<mapsto> True, ''class'' \<mapsto> True)\<rparr> =
     Throws (Error ''Element, id and pseudo-element should not occur more then one time inside the selector'')
     \<lparr>selector = ''#main.box'', combinator = '''', current = Some ''class'',
       occurences = (occurences SelectorBuilder_constructor)(''id'' \<mapsto> True, ''class'' \<mapsto> True)\<rparr>"
proof -
  have h1: "calls [Append CatId ''main'', Append CatClass ''box''] SelectorBuilder_constructor =
     Returns \<lparr>selector = ''#main.box'', combinator = '''', current = Some ''class'',
       occurences = (occurences SelectorBuilder_constructor)(''id'' \<mapsto> True, ''class'' \<mapsto> True)\<rparr>"
    by (simp add: run_simps)
  have h2: "CatId \<in> set (appended [Append CatId ''main'', Append CatClass ''box''])"
    by simp
  have h3: "CatId = CatElement \<or> CatId = CatId \<or> CatId = CatPseudoElement"
    by simp
  have h4: "last_appended [Append CatId ''main'', Append CatClass ''box''] = Some CatClass"
    by (simp add: last_appended_def)
  have h5: "category_position CatId < category_position CatClass"
    by simp
  from duplicate_checked_before_order [OF h1 h2 h3 h4 h5, of "''other''"] h1 h2 h3 h4 h5
  show ?thesis by blast
qed

text \<open>
  C10. For every builder state, when \<^verbatim>\<open>add\<close> throws, the receiver's selector text, its
  occurrence flags and its latest category are as they were before the call, and the
  error is one of the two validation errors.
\<close>

theorem failed_add_leaves_builder:
  assumes "SelectorBuilder_add type value this = Throws e this'"
  shows "selector this' = selector this \<and> occurences this' = occurences this \<and>
         current this' = current this \<and>
         (e = Error SelectorBuilder_error2 \<or> e = Error SelectorBuilder_error1)"
  using assms
  by (simp add: SelectorBuilder_add_def displayUniqueError_def displayOrderError_def
      split: if_splits)

theorem failed_add_leaves_builder_witness:
  "SelectorBuilder_add ''id'' ''main''
     \<lparr>selector = ''.box'', combinator = '''', current = Some ''class'',
       occurences = (occurences SelectorBuilder_constructor)(''class'' \<mapsto> True)\<rparr> =
     Throws (Error SelectorBuilder_error1)
     \<lparr>selector = ''.box'', combinator = '''', current = Some ''class'',
       occurences = (occurences SelectorBuilder_constructor)(''class'' \<mapsto> True)\<rparr> \<and>
   selector \<lparr>selector = ''.box'', combinator = '''', current = Some ''class'',
       occurences = (occurences SelectorBuilder_constructor)(''class'' \<mapsto> True)\<rparr> = ''.box'' \<and>
   current \<lparr>selector = ''.box'', combinator = '''', current = Some ''class'',
       occurences = (occurences SelectorBuilder_constructor)(''class'' \<mapsto> True)\<rparr> = Some ''class''"
proof -
  have h: "SelectorBuilder_add ''id'' ''main''
     \<lparr>selector = ''.box'', combinator = '''', current = Some ''class'',
       occurences = (occurences SelectorBuilder_constructor)(''class'' \<mapsto> True)\<rparr> =
     Throws (Error SelectorBuilder_error1)
     \<lparr>selector = ''.box'', combinator = '''', current = Some ''class'',
       occurences = (occurences SelectorBuilder_constructor)(''class'' \<mapsto> True)\<rparr>"
    by (simp add: SelectorBuilder_add_def displayOrderError_def indexOf_def
        SelectorBuilder_order_def SelectorBuilder_constructor_def)
  from failed_add_leaves_builder [OF h] h show ?thesis by simp
qed

section \<open>Facts about the JSON helpers\<close>


















lemma hex_value_hex_digit: "a < 16 \<Longrightarrow> hex_value (hex_digit a) = Some a"
proof -
  assume "a < 16"
  then have "a = 0 \<or> a = 1 \<or> a = 2 \<or> a = 3 \<or> a = 4 \<or> a = 5 \<or> a = 6 \<or> a = 7
      \<or> a = 8 \<or> a = 9 \<or> a = 10 \<or> a = 11 \<or> a = 12 \<or> a = 13 \<or> a = 14 \<or> a = 15"
    by presburger
  then show ?thesis
    by (elim disjE) (simp_all add: hex_digit_def hex_value_def)
qed

lemma hex4_control:
  assumes "n < 32"
  shows "hex4 [CHR ''0'', CHR ''0'', hex_digit (n div 16), hex_digit (n mod 16)] = Some n"
proof -
  from assms have "n div 16 < 16" by simp
  then have hi: "hex_value (hex_digit (n div 16)) = Some (n div 16)"
    by (rule hex_value_hex_digit)
  have lo: "hex_value (hex_digit (n mod 16)) = Some (n mod 16)"
    by (rule hex_value_hex_digit) simp
  have zero: "hex_value CHR ''0'' = Some 0"
    by (simp add: hex_value_def)
  show ?thesis
    by (simp add: hi lo zero)
qed

lemma parse_string_escape_char:
  "parse_string (escape_char c @ tail) = cons_char c (parse_string tail)"
proof (cases "c = quote \<or> c = backslash \<or> c = CHR 0x08 \<or> c = CHR 0x0C \<or> c = CHR 0x0A
    \<or> c = CHR 0x0D \<or> c = CHR 0x09")
  case True
  then show ?thesis
    by (elim disjE) (simp_all add: escape_char_def unescape_def quote_def backslash_def)
next
  case special: False
  show ?thesis
  proof (cases "(of_char c :: nat) < 32")
    case True
    have "char_of (of_char c :: nat) = c" by simp
    with True special hex4_control [OF True] show ?thesis
      by (simp add: escape_char_def quote_def backslash_def)
  next
    case False
    with special show ?thesis
      by (simp add: escape_char_def)
  qed
qed

lemma parse_string_escaped:
  "parse_string (concat (map escape_char s) @ quote # rest) = Inr (s, rest)"
  by (induction s) (simp_all add: parse_string_escape_char)

lemma parse_string_quoted:
  "parse_string (tl (quoted s @ rest)) = Inr (s, rest)"
  by (simp add: quoted_def parse_string_escaped)






















declare parse_value.simps [simp del] parse_elements.simps [simp del]
  parse_members.simps [simp del]

lemma terminated_simps [simp]:
  "terminated []" "terminated (CHR '','' # s)" "terminated (CHR '']'' # s)"
  "terminated (CHR ''}'' # s)"
  by (simp_all add: terminated_def)











text \<open>
  The reader consumes its input, so the fuel that \<open>JSON_parse\<close> supplies never runs out.
\<close>

lemma cons_char_rest:
  "cons_char c r = Inr (x, rest) \<Longrightarrow> \<exists>y. r = Inr (y, rest)"
  by (cases r) auto

lemma parse_string_shorter:
  "parse_string s = Inr (x, rest) \<Longrightarrow> length rest < length s"
proof (induction s arbitrary: x rule: parse_string.induct)
  case 1
  then show ?case by simp
next
  case (2 c cs)
  show ?case
  proof (cases "c = quote")
    case True
    with "2.prems" show ?thesis by simp
  next
    case nq: False
    show ?thesis
    proof (cases "c = backslash")
      case True
      with nq "2.prems" obtain e r where cs: "cs = e # r"
        by (cases cs) auto
      show ?thesis
      proof (cases "e = CHR ''u''")
        case u: True
        with nq True cs "2.prems" obtain n where n: "hex4 (take 4 r) = Some n" "n < 256"
          and res: "cons_char (char_of n) (parse_string (drop 4 r)) = Inr (x, rest)"
          by (auto split: option.splits if_splits)
        from cons_char_rest [OF res] obtain y where "parse_string (drop 4 r) = Inr (y, rest)"
          by blast
        from "2.IH"(1) [OF nq True cs u n(1) n(2) this] show ?thesis
          by (simp add: cs)
      next
        case nu: False
        with nq True cs "2.prems" obtain d where d: "unescape e = Some d"
          and res: "cons_char d (parse_string r) = Inr (x, rest)"
          by (auto split: option.splits)
        from cons_char_rest [OF res] obtain y where "parse_string r = Inr (y, rest)"
          by blast
        from "2.IH"(2) [OF nq True cs nu d this] show ?thesis
          by (simp add: cs)
      qed
    next
      case nb: False
      with nq "2.prems" have ctl: "\<not> (of_char c :: nat) < 32"
        and res: "cons_char c (parse_string cs) = Inr (x, rest)"
        by (auto split: if_splits)
      from cons_char_rest [OF res] obtain y where "parse_string cs = Inr (y, rest)"
        by blast
      from "2.IH"(3) [OF nq nb ctl this] show ?thesis
        by simp
    qed
  qed
qed

lemma skip_ws_length: "length (skip_ws s) \<le> length s"
  by (simp add: skip_ws_def length_dropWhile_le)

lemma parse_digits_shorter:
  "parse_digits s = Inr (n, rest) \<Longrightarrow> length rest < length s"
proof -
  assume a: "parse_digits s = Inr (n, rest)"
  then have ne: "takeWhile is_digit s \<noteq> []" and rest: "rest = dropWhile is_digit s"
    by (auto simp: parse_digits_def Let_def split: if_splits)
  have "length (takeWhile is_digit s) + length (dropWhile is_digit s) = length s"
    by (metis length_append takeWhile_dropWhile_id)
  with ne rest show ?thesis
    by (cases "takeWhile is_digit s") auto
qed

lemma parse_number_shorter:
  "parse_number s = Inr (v, rest) \<Longrightarrow> length rest < length s"
  by (auto simp: parse_number_def split: if_splits sum.splits dest!: parse_digits_shorter)

lemma tl_shorter: "xs \<noteq> [] \<Longrightarrow> length xs \<le> n \<Longrightarrow> length (tl xs) < n"
  by (cases xs) auto

lemma take_literal_shorter:
  "take n t = lit \<Longrightarrow> lit \<noteq> [] \<Longrightarrow> length (drop n t) < length t"
  by (cases n; cases t) auto

lemma parse_value_shorter_step:
  assumes elements: "\<And>s vs rest. parse_elements f s = Inr (vs, rest) \<Longrightarrow> length rest < length s"
    and members: "\<And>s kvs rest. parse_members f s = Inr (kvs, rest) \<Longrightarrow> length rest < length s"
    and result: "parse_value (Suc f) s = Inr (v, rest)"
  shows "length rest < length s"
proof -
  let ?t = "skip_ws s"
  have t: "length ?t \<le> length s" by (rule skip_ws_length)
  have tl2: "length (skip_ws (tl ?t)) \<le> length (tl ?t)" by (rule skip_ws_length)
  from result have ne: "?t \<noteq> []"
    by (auto simp: parse_value.simps Let_def split: if_splits)
  consider (null) "take 4 ?t = ''null''" "rest = drop 4 ?t"
    | (true) "take 4 ?t = ''true''" "rest = drop 4 ?t"
    | (false) "take 5 ?t = ''false''" "rest = drop 5 ?t"
    | (string) x where "parse_string (tl ?t) = Inr (x, rest)"
    | (empty) "skip_ws (tl ?t) \<noteq> []" "rest = tl (skip_ws (tl ?t))"
    | (array) vs where "parse_elements f (tl ?t) = Inr (vs, rest)"
    | (object) kvs where "parse_members f (tl ?t) = Inr (kvs, rest)"
    | (number) "parse_number ?t = Inr (v, rest)"
    using result
    by (simp add: parse_value.simps Let_def split: if_splits sum.splits prod.splits)
  then show ?thesis
  proof cases
    case null
    with take_literal_shorter [of 4 ?t "''null''"] t show ?thesis by simp
  next
    case true
    with take_literal_shorter [of 4 ?t "''true''"] t show ?thesis by simp
  next
    case false
    with take_literal_shorter [of 5 ?t "''false''"] t show ?thesis by simp
  next
    case string
    from parse_string_shorter [OF this] t show ?thesis by simp
  next
    case empty
    from tl2 t have "length (skip_ws (tl ?t)) \<le> length s" by simp
    from tl_shorter [OF empty(1) this] empty(2) show ?thesis by simp
  next
    case array
    from elements [OF this] t show ?thesis by simp
  next
    case object
    from members [OF this] t show ?thesis by simp
  next
    case number
    from parse_number_shorter [OF this] t show ?thesis by simp
  qed
qed

lemma parse_elements_shorter_step:
  assumes val: "\<And>s v rest. parse_value f s = Inr (v, rest) \<Longrightarrow> length rest < length s"
    and elements: "\<And>s vs rest. parse_elements f s = Inr (vs, rest) \<Longrightarrow> length rest < length s"
    and result: "parse_elements (Suc f) s = Inr (vs, rest)"
  shows "length rest < length s"
proof -
  from result obtain v r where v: "parse_value f s = Inr (v, r)"
    by (auto simp: parse_elements.simps split: sum.splits)
  let ?t = "skip_ws r"
  have t: "length ?t \<le> length r" by (rule skip_ws_length)
  from val [OF v] have r: "length r < length s" .
  from result v consider (more) ws where "parse_elements f (tl ?t) = Inr (ws, rest)"
    | (last) "?t \<noteq> []" "rest = tl ?t"
    by (simp add: parse_elements.simps Let_def split: if_splits sum.splits prod.splits)
  then show ?thesis
  proof cases
    case more
    from elements [OF this] t r show ?thesis by simp
  next
    case last
    from t r have "length ?t \<le> length s" by simp
    from tl_shorter [OF last(1) this] last(2) show ?thesis by simp
  qed
qed

lemma parse_members_shorter_step:
  assumes val: "\<And>s v rest. parse_value f s = Inr (v, rest) \<Longrightarrow> length rest < length s"
    and members: "\<And>s kvs rest. parse_members f s = Inr (kvs, rest) \<Longrightarrow> length rest < length s"
    and result: "parse_members (Suc f) s = Inr (kvs, rest)"
  shows "length rest < length s"
proof -
  let ?t = "skip_ws s"
  have t: "length ?t \<le> length s" by (rule skip_ws_length)
  from result obtain k r0 where k: "parse_string (tl ?t) = Inr (k, r0)"
    by (auto simp: parse_members.simps Let_def split: if_splits sum.splits)
  let ?u = "skip_ws r0"
  have u: "length ?u \<le> length r0" by (rule skip_ws_length)
  from parse_string_shorter [OF k] have r0: "length r0 < length (tl ?t)" .
  from result k obtain v r where v: "parse_value f (tl ?u) = Inr (v, r)"
    by (auto simp: parse_members.simps Let_def split: if_splits sum.splits)
  let ?w = "skip_ws r"
  have w: "length ?w \<le> length r" by (rule skip_ws_length)
  from val [OF v] have r: "length r < length (tl ?u)" .
  from result k v consider (more) ws where "parse_members f (tl ?w) = Inr (ws, rest)"
    | (last) "?w \<noteq> []" "rest = tl ?w"
    by (simp add: parse_members.simps Let_def split: if_splits sum.splits prod.splits)
  then show ?thesis
  proof cases
    case more
    from members [OF this] t u w r0 r show ?thesis by simp
  next
    case last
    from t u w r0 r have "length ?w \<le> length s" by simp
    from tl_shorter [OF last(1) this] last(2) show ?thesis by simp
  qed
qed

lemma parse_shorter:
  "(\<forall>s v rest. parse_value f s = Inr (v, rest) \<longrightarrow> length rest < length s) \<and>
   (\<forall>s vs rest. parse_elements f s = Inr (vs, rest) \<longrightarrow> length rest < length s) \<and>
   (\<forall>s kvs rest. parse_members f s = Inr (kvs, rest) \<longrightarrow> length rest < length s)"
proof (induction f)
  case 0
  show ?case by (simp add: parse_value.simps parse_elements.simps parse_members.simps)
next
  case (Suc f)
  then show ?case
    by (blast intro: parse_value_shorter_step parse_elements_shorter_step
        parse_members_shorter_step)
qed

lemma parse_value_shorter:
  "parse_value f s = Inr (v, rest) \<Longrightarrow> length rest < length s"
  using parse_shorter [of f] by blast

lemma cons_char_fuel: "cons_char c r = Inl OutOfFuel \<Longrightarrow> r = Inl OutOfFuel"
  by (cases r) auto

lemma parse_string_fuel: "parse_string s \<noteq> Inl OutOfFuel"
proof (induction s rule: parse_string.induct)
  case 1
  show ?case by simp
next
  case (2 c cs)
  show ?case
  proof
    assume out: "parse_string (c # cs) = Inl OutOfFuel"
    then have nq: "c \<noteq> quote"
      by (auto split: if_splits)
    show False
    proof (cases "c = backslash")
      case True
      with nq out obtain e r where cs: "cs = e # r"
        by (cases cs) auto
      show False
      proof (cases "e = CHR ''u''")
        case u: True
        with nq True cs out obtain n where n: "hex4 (take 4 r) = Some n" "n < 256"
          and res: "cons_char (char_of n) (parse_string (drop 4 r)) = Inl OutOfFuel"
          by (auto split: option.splits if_splits)
        from cons_char_fuel [OF res] "2.IH"(1) [OF nq True cs u n(1) n(2)] show False
          by simp
      next
        case nu: False
        with nq True cs out obtain d where d: "unescape e = Some d"
          and res: "cons_char d (parse_string r) = Inl OutOfFuel"
          by (auto split: option.splits)
        from cons_char_fuel [OF res] "2.IH"(2) [OF nq True cs nu d] show False
          by simp
      qed
    next
      case nb: False
      with nq out have ctl: "\<not> (of_char c :: nat) < 32"
        and res: "cons_char c (parse_string cs) = Inl OutOfFuel"
        by (auto split: if_splits)
      from cons_char_fuel [OF res] "2.IH"(3) [OF nq nb ctl] show False
        by simp
    qed
  qed
qed

lemma parse_number_fuel: "parse_number s \<noteq> Inl OutOfFuel"
  by (auto simp: parse_number_def parse_digits_def Let_def split: if_splits sum.splits)

lemma fuel_value_step:
  assumes elements: "\<And>s. 2 * length s + 1 < f \<Longrightarrow> parse_elements f s \<noteq> Inl OutOfFuel"
    and members: "\<And>s. 2 * length s + 1 < f \<Longrightarrow> parse_members f s \<noteq> Inl OutOfFuel"
    and fuel: "2 * length s < Suc f"
  shows "parse_value (Suc f) s \<noteq> Inl OutOfFuel"
proof
  assume out: "parse_value (Suc f) s = Inl OutOfFuel"
  let ?t = "skip_ws s"
  have t: "length ?t \<le> length s" by (rule skip_ws_length)
  from out have ne: "?t \<noteq> []"
    by (auto simp: parse_value.simps Let_def split: if_splits)
  from tl_shorter [OF ne t] fuel have enough: "2 * length (tl ?t) + 1 < f"
    by simp
  from out consider "parse_string (tl ?t) = Inl OutOfFuel"
    | "parse_elements f (tl ?t) = Inl OutOfFuel"
    | "parse_members f (tl ?t) = Inl OutOfFuel"
    | "parse_number ?t = Inl OutOfFuel"
    by (simp add: parse_value.simps Let_def split: if_splits sum.splits prod.splits)
  then show False
    using parse_string_fuel parse_number_fuel elements [OF enough] members [OF enough]
    by cases simp_all
qed

lemma fuel_elements_step:
  assumes val: "\<And>s. 2 * length s < f \<Longrightarrow> parse_value f s \<noteq> Inl OutOfFuel"
    and elements: "\<And>s. 2 * length s + 1 < f \<Longrightarrow> parse_elements f s \<noteq> Inl OutOfFuel"
    and fuel: "2 * length s + 1 < Suc f"
  shows "parse_elements (Suc f) s \<noteq> Inl OutOfFuel"
proof
  assume out: "parse_elements (Suc f) s = Inl OutOfFuel"
  from fuel have "2 * length s < f" by simp
  from val [OF this] out obtain v r where v: "parse_value f s = Inr (v, r)"
    by (cases "parse_value f s") (auto simp: parse_elements.simps)
  let ?t = "skip_ws r"
  have t: "length ?t \<le> length r" by (rule skip_ws_length)
  from parse_value_shorter [OF v] have r: "length r < length s" .
  from out v have ne: "?t \<noteq> []" and more: "parse_elements f (tl ?t) = Inl OutOfFuel"
    by (auto simp: parse_elements.simps Let_def split: if_splits sum.splits)
  from tl_shorter [OF ne t] r fuel have "2 * length (tl ?t) + 1 < f"
    by simp
  from elements [OF this] more show False
    by simp
qed

lemma fuel_members_step:
  assumes val: "\<And>s. 2 * length s < f \<Longrightarrow> parse_value f s \<noteq> Inl OutOfFuel"
    and members: "\<And>s. 2 * length s + 1 < f \<Longrightarrow> parse_members f s \<noteq> Inl OutOfFuel"
    and fuel: "2 * length s + 1 < Suc f"
  shows "parse_members (Suc f) s \<noteq> Inl OutOfFuel"
proof
  assume out: "parse_members (Suc f) s = Inl OutOfFuel"
  let ?t = "skip_ws s"
  have t: "length ?t \<le> length s" by (rule skip_ws_length)
  from out parse_string_fuel [of "tl ?t"] obtain k r0
    where k: "parse_string (tl ?t) = Inr (k, r0)"
    by (cases "parse_string (tl ?t)")
      (auto simp: parse_members.simps Let_def split: if_splits)
  let ?u = "skip_ws r0"
  have u: "length ?u \<le> length r0" by (rule skip_ws_length)
  from parse_string_shorter [OF k] have r0: "length r0 < length (tl ?t)" .
  from t r0 u fuel have "2 * length (tl ?u) < f"
    by simp
  from val [OF this] out k obtain v r where v: "parse_value f (tl ?u) = Inr (v, r)"
    by (cases "parse_value f (tl ?u)")
      (auto simp: parse_members.simps Let_def split: if_splits)
  let ?w = "skip_ws r"
  have w: "length ?w \<le> length r" by (rule skip_ws_length)
  from parse_value_shorter [OF v] have r: "length r < length (tl ?u)" .
  from out k v have more: "parse_members f (tl ?w) = Inl OutOfFuel"
    by (auto simp: parse_members.simps Let_def split: if_splits sum.splits)
  from t r0 u r w fuel have "2 * length (tl ?w) + 1 < f"
    by simp
  from members [OF this] more show False
    by simp
qed

lemma parse_fuel:
  "(\<forall>s. 2 * length s < f \<longrightarrow> parse_value f s \<noteq> Inl OutOfFuel) \<and>
   (\<forall>s. 2 * length s + 1 < f \<longrightarrow> parse_elements f s \<noteq> Inl OutOfFuel) \<and>
   (\<forall>s. 2 * length s + 1 < f \<longrightarrow> parse_members f s \<noteq> Inl OutOfFuel)"
proof (induction f)
  case 0
  show ?case by simp
next
  case (Suc f)
  then have val: "\<And>s. 2 * length s < f \<Longrightarrow> parse_value f s \<noteq> Inl OutOfFuel"
    and elements: "\<And>s. 2 * length s + 1 < f \<Longrightarrow> parse_elements f s \<noteq> Inl OutOfFuel"
    and members: "\<And>s. 2 * length s + 1 < f \<Longrightarrow> parse_members f s \<noteq> Inl OutOfFuel"
    by blast+
  show ?case
  proof (intro conjI allI impI)
    fix s :: string
    assume "2 * length s < Suc f"
    then show "parse_value (Suc f) s \<noteq> Inl OutOfFuel"
      by (intro fuel_value_step elements members)
  next
    fix s :: string
    assume "2 * length s + 1 < Suc f"
    then show "parse_elements (Suc f) s \<noteq> Inl OutOfFuel"
      by (intro fuel_elements_step val elements)
  next
    fix s :: string
    assume "2 * length s + 1 < Suc f"
    then show "parse_members (Suc f) s \<noteq> Inl OutOfFuel"
      by (intro fuel_members_step val members)
  qed
qed

lemma JSON_parse_fuel: "JSON_parse s \<noteq> Inl OutOfFuel"
proof -
  have "2 * length s < Suc (length s + length s)" by simp
  with parse_fuel [of "Suc (length s + length s)"]
  have "parse_value (Suc (length s + length s)) s \<noteq> Inl OutOfFuel" by blast
  then show ?thesis
    by (auto simp: JSON_parse_def split: sum.splits if_splits)
qed




end
